theory Spec2Isabelle
  imports Main "HOL-Library.Word"
begin

section \<open>Machine types\<close>

text \<open>
  The target is the RP2040 (32-bit ARM): \<open>size_t\<close>, \<open>UINT\<close> and data pointers are
  32 bits wide, and unsigned arithmetic wraps around.  Memory is one flat store from
  addresses to bytes; pointers are addresses, pointer arithmetic is word addition.
\<close>

type_synonym size_t = "32 word"
type_synonym addr = "32 word"
type_synonym byte = "8 word"
type_synonym memory = "addr \<Rightarrow> byte"

text \<open>\<open>FIL*\<close>: the file handle is opaque, only its identity matters.\<close>

type_synonym FIL_ptr = nat

subsection \<open>The C library's block operations\<close>

text \<open>
  An address \<open>a\<close> lies in the block of \<open>n\<close> bytes at \<open>dst\<close> iff \<open>a - dst < n\<close> in
  word arithmetic.  \<open>memmove\<close> copies as if through a temporary, so every destination
  byte is read from the store as it was before the call; \<open>memcpy\<close> agrees with it
  wherever C defines \<open>memcpy\<close> (source and destination do not overlap).
\<close>

definition memmove :: "memory \<Rightarrow> addr \<Rightarrow> addr \<Rightarrow> size_t \<Rightarrow> memory" where
  "memmove m dst src n = (\<lambda>a. if a - dst < n then m (src + (a - dst)) else m a)"

definition memcpy :: "memory \<Rightarrow> addr \<Rightarrow> addr \<Rightarrow> size_t \<Rightarrow> memory" where
  "memcpy m dst src n = (\<lambda>a. if a - dst < n then m (src + (a - dst)) else m a)"

definition memset :: "memory \<Rightarrow> addr \<Rightarrow> byte \<Rightarrow> size_t \<Rightarrow> memory" where
  "memset m dst c n = (\<lambda>a. if a - dst < n then c else m a)"

subsection \<open>The SDK's queue\<close>

text \<open>
  \<open>queue_t\<close> of the Pico SDK: a FIFO of at most \<open>element_count\<close> elements.
  \<open>queue_try_add\<close> does nothing and returns false on a full queue;
  \<open>queue_remove_blocking\<close> waits on an empty queue, which is the value \<open>None\<close> here.
\<close>

record 'a queue_t =
  element_count :: nat
  elems :: "'a list"

definition queue_init :: "nat \<Rightarrow> 'a queue_t" where
  "queue_init n = \<lparr>element_count = n, elems = []\<rparr>"

definition queue_is_empty :: "'a queue_t \<Rightarrow> bool" where
  "queue_is_empty q = (elems q = [])"

definition queue_get_level :: "'a queue_t \<Rightarrow> nat" where
  "queue_get_level q = length (elems q)"

definition queue_try_add :: "'a queue_t \<Rightarrow> 'a \<Rightarrow> bool \<times> 'a queue_t" where
  "queue_try_add q x =
     (if length (elems q) < element_count q then (True, q\<lparr>elems := elems q @ [x]\<rparr>)
      else (False, q))"

definition queue_remove_blocking :: "'a queue_t \<Rightarrow> ('a \<times> 'a queue_t) option" where
  "queue_remove_blocking q =
     (case elems q of [] \<Rightarrow> None | x # xs \<Rightarrow> Some (x, q\<lparr>elems := xs\<rparr>))"

section \<open>The ReadBuffer object\<close>

text \<open>\<open>secondaryBufferItem_t\<close> and \<open>bindReq_t\<close>, with the fields the code uses.\<close>

record secondaryBufferItem_t =
  item_ptr :: addr
  item_pos :: size_t
  item_length :: size_t
  item_reachedEof :: bool

record bindReq_t =
  req_fp :: FIL_ptr
  req_flag :: bool

text \<open>
  The members \<open>_head\<close>, \<open>_ptr\<close>, \<open>_size\<close>, \<open>_left\<close>, \<open>_pos\<close>, \<open>_fillThreshold\<close>,
  \<open>_isEof\<close>, \<open>_fp\<close> and the three queues, together with the store the pointers point
  into and the lines written by \<open>printf\<close>.
\<close>

record ReadBuffer =
  mem :: memory
  m_head :: addr
  m_ptr :: addr
  m_size :: size_t
  m_left :: size_t
  m_pos :: size_t
  m_fillThreshold :: size_t
  m_isEof :: bool
  m_fp :: FIL_ptr
  secondaryBufferQueue :: "secondaryBufferItem_t queue_t"
  bindReqQueue :: "bindReq_t queue_t"
  bindRespQueue :: "bindReq_t queue_t"
  stdout :: "string list"

definition bind :: "FIL_ptr \<Rightarrow> ReadBuffer \<Rightarrow> ReadBuffer" where
  "bind fp s = s\<lparr>m_fp := fp, m_ptr := m_head s, m_left := 0, m_isEof := False\<rparr>"

definition fill :: "ReadBuffer \<Rightarrow> bool \<times> ReadBuffer" where
  "fill s =
     (if m_isEof s then (False, s)
      else if queue_is_empty (secondaryBufferQueue s) then
        (False, s\<lparr>stdout := stdout s @ [''ERROR: ReadBuffer::secondaryBuffer is empty'' @ [CHR 0x0D, CHR 0x0A]]\<rparr>)
      else
        (case queue_remove_blocking (secondaryBufferQueue s) of
           None \<Rightarrow> (False, s)
         | Some (item, q) \<Rightarrow>
             let m1 = memmove (mem s) (m_head s) (m_ptr s) (m_left s);
                 space = m_size s - m_left s;
                 m2 = memcpy m1 (m_head s + m_left s) (item_ptr item) (item_length item);
                 left' = m_left s + item_length item;
                 m3 = (if space > item_length item
                       then memset m2 (m_head s + left') 0 (space - item_length item)
                       else m2)
             in (True, s\<lparr>mem := m3, m_ptr := m_head s, m_left := left',
                          m_pos := item_pos item, m_isEof := item_reachedEof item,
                          secondaryBufferQueue := q\<rparr>)))"

definition shift :: "size_t \<Rightarrow> ReadBuffer \<Rightarrow> bool \<times> ReadBuffer" where
  "shift bytes s =
     (if m_left s < bytes then (False, s)
      else
        let s1 = s\<lparr>m_ptr := m_ptr s + bytes, m_left := m_left s - bytes\<rparr>;
            s2 = (if m_left s1 < m_fillThreshold s1 then snd (fill s1) else s1)
        in (True, s2))"

definition shiftAll :: "ReadBuffer \<Rightarrow> bool \<times> ReadBuffer" where
  "shiftAll s = shift (m_left s) s"

definition getLeft :: "ReadBuffer \<Rightarrow> size_t" where
  "getLeft s = m_left s"

definition tell :: "ReadBuffer \<Rightarrow> size_t" where
  "tell s = m_pos s - m_left s"


section \<open>Sequences of consumer calls\<close>

text \<open>
  A run of the consumer: calls of \<open>fill\<close> and \<open>shift\<close>, interleaved with the Fill Loop
  publishing an item on the secondary-buffer channel (its \<open>queue_try_add\<close>).
\<close>

datatype call = Fill | Shift size_t | Publish secondaryBufferItem_t

fun do_call :: "call \<Rightarrow> ReadBuffer \<Rightarrow> ReadBuffer" where
  "do_call Fill s = snd (fill s)"
| "do_call (Shift n) s = snd (shift n s)"
| "do_call (Publish item) s =
     s\<lparr>secondaryBufferQueue := snd (queue_try_add (secondaryBufferQueue s) item)\<rparr>"

fun do_calls :: "call list \<Rightarrow> ReadBuffer \<Rightarrow> ReadBuffer" where
  "do_calls [] s = s"
| "do_calls (c # cs) s = do_calls cs (do_call c s)"

text \<open>
  A run is admissible for the chunk size \<open>C\<close> when no published item is longer than
  \<open>C\<close> and every explicit \<open>fill\<close> is called with room for a whole chunk.
\<close>

fun admissible :: "size_t \<Rightarrow> call list \<Rightarrow> ReadBuffer \<Rightarrow> bool" where
  "admissible C [] s = True"
| "admissible C (Fill # cs) s =
     (unat (m_left s) + unat C \<le> unat (m_size s) \<and> admissible C cs (do_call Fill s))"
| "admissible C (Shift n # cs) s = admissible C cs (do_call (Shift n) s)"
| "admissible C (Publish item # cs) s =
     (item_length item \<le> C \<and> admissible C cs (do_call (Publish item) s))"

text \<open>
  The invariant of an admissible run: \<open>left\<close> is within the size, no waiting item is
  longer than \<open>C\<close>, and an auto-fill (which happens below the threshold) has room.
\<close>

definition room_inv :: "size_t \<Rightarrow> ReadBuffer \<Rightarrow> bool" where
  "room_inv C s \<longleftrightarrow>
     m_left s \<le> m_size s \<and>
     (\<forall>item \<in> set (elems (secondaryBufferQueue s)). item_length item \<le> C) \<and>
     (m_fillThreshold s = 0 \<or> unat (m_fillThreshold s) + unat C \<le> unat (m_size s) + 1)"

section \<open>The Fill Loop\<close>

text \<open>
  The constants \<open>NUM_SECONDARY_BUFFERS\<close> and \<open>SECONDARY_BUFFER_SIZE\<close> and the address
  of the array \<open>secondaryBuffer\<close> come from the header; they are parameters here.
\<close>

record layout =
  NUM_SECONDARY_BUFFERS :: nat
  SECONDARY_BUFFER_SIZE :: nat
  secondaryBuffer :: addr

text \<open>
  The file system is opaque.  What it answers during one step of the loop is a
  parameter of that step: the values of \<open>f_tell\<close> and \<open>f_eof\<close>, and for \<open>f_read\<close> its
  result code, the count \<open>br\<close> and the bytes it stored in the slot.
\<close>

datatype FRESULT = FR_OK | FR_ERR nat

record fs_reply =
  f_tell :: size_t
  f_eof :: bool
  f_read_fr :: FRESULT
  f_read_br :: "32 word"
  f_read_data :: "byte list"

fun store_bytes :: "memory \<Rightarrow> addr \<Rightarrow> byte list \<Rightarrow> memory" where
  "store_bytes m a [] = m"
| "store_bytes m a (b # bs) = store_bytes (m(a := b)) (a + 1) bs"

text \<open>
  Control points of \<open>fillLoop\<close>: \<open>Idle\<close> is the wait for a bind request (line 144),
  \<open>Streaming_outer\<close> the test of \<open>while (!reachedEof)\<close> (line 155), \<open>Streaming_inner\<close>
  the test of the queue level (line 157), \<open>Streaming_read\<close> the read and the
  publication of its item (lines 160 to 170), \<open>Streaming_accept\<close> the acceptance of a
  bind request (lines 173 to 182), \<open>Returned\<close> the state after \<open>return\<close> (line 161).
\<close>

datatype fillLoop_pc =
  Idle | Streaming_outer | Streaming_inner | Streaming_read | Streaming_accept | Returned

record fillLoop_locals =
  pc :: fillLoop_pc
  loop_id :: nat
  loop_pos :: size_t
  loop_fp :: FIL_ptr
  loop_reachedEof :: bool

type_synonym system = "fillLoop_locals \<times> ReadBuffer"

text \<open>The locals at entry and the three \<open>queue_init\<close> calls (lines 132 to 138).\<close>

definition fillLoop_start :: "layout \<Rightarrow> FIL_ptr \<Rightarrow> ReadBuffer \<Rightarrow> system" where
  "fillLoop_start cfg fp0 s =
     (\<lparr>pc = Idle, loop_id = 0, loop_pos = 0, loop_fp = fp0, loop_reachedEof = False\<rparr>,
      s\<lparr>bindReqQueue := queue_init 1, bindRespQueue := queue_init 1,
        secondaryBufferQueue := queue_init (NUM_SECONDARY_BUFFERS cfg)\<rparr>)"

text \<open>
  One step of the loop, from one control point to the next.  A wait on an empty queue
  is a step that changes nothing.  The index \<open>id\<close> is never negative, so C's \<open>%\<close> is
  \<open>mod\<close>; it is only evaluated after the level was seen below \<open>NUM_SECONDARY_BUFFERS\<close>.
\<close>

fun fillLoop_step :: "layout \<Rightarrow> fs_reply \<Rightarrow> system \<Rightarrow> system" where
  "fillLoop_step cfg r (l, s) =
     (case pc l of
        Idle \<Rightarrow>
          (case queue_remove_blocking (bindReqQueue s) of
             None \<Rightarrow> (l, s)
           | Some (req, q) \<Rightarrow>
               let s1 = s\<lparr>bindReqQueue := q\<rparr>;
                   l2 = (if req_flag req
                         then l\<lparr>loop_fp := req_fp req, loop_pos := f_tell r,
                                 loop_reachedEof := f_eof r\<rparr>
                         else l);
                   s2 = (if req_flag req then bind (req_fp req) s1 else s1);
                   s3 = s2\<lparr>bindRespQueue := snd (queue_try_add (bindRespQueue s2) req)\<rparr>
               in (l2\<lparr>pc := (if req_flag req then Streaming_outer else Idle)\<rparr>, s3))
      | Streaming_outer \<Rightarrow>
          (l\<lparr>pc := (if \<not> loop_reachedEof l then Streaming_inner else Idle)\<rparr>, s)
      | Streaming_inner \<Rightarrow>
          (l\<lparr>pc := (if queue_get_level (secondaryBufferQueue s) < NUM_SECONDARY_BUFFERS cfg
                     then Streaming_read else Streaming_accept)\<rparr>, s)
      | Streaming_read \<Rightarrow>
          let slot = secondaryBuffer cfg + of_nat (SECONDARY_BUFFER_SIZE cfg * loop_id l);
              s1 = s\<lparr>mem := store_bytes (mem s) slot (f_read_data r)\<rparr>
          in if f_read_fr r \<noteq> FR_OK \<or> f_read_br r = 0 then (l\<lparr>pc := Returned\<rparr>, s1)
             else
               let reachedEof = f_eof r;
                   pos = loop_pos l + f_read_br r;
                   item = \<lparr>item_ptr = slot, item_pos = pos, item_length = f_read_br r,
                           item_reachedEof = reachedEof\<rparr>;
                   s2 = s1\<lparr>secondaryBufferQueue :=
                             snd (queue_try_add (secondaryBufferQueue s1) item)\<rparr>
               in (l\<lparr>loop_reachedEof := reachedEof, loop_pos := pos,
                      loop_id := (loop_id l + 1) mod NUM_SECONDARY_BUFFERS cfg,
                      pc := (if reachedEof then Streaming_accept else Streaming_inner)\<rparr>, s2)
      | Streaming_accept \<Rightarrow>
          (case queue_remove_blocking (bindReqQueue s) of
             None \<Rightarrow> (l\<lparr>pc := Streaming_outer\<rparr>, s)
           | Some (req, q) \<Rightarrow>
               let s1 = s\<lparr>bindReqQueue := q\<rparr>;
                   s2 = (if \<not> req_flag req
                         then s1\<lparr>secondaryBufferQueue := (secondaryBufferQueue s1)\<lparr>elems := []\<rparr>\<rparr>
                         else s1);
                   s3 = s2\<lparr>bindRespQueue := snd (queue_try_add (bindRespQueue s2) req)\<rparr>
               in (l\<lparr>pc := (if \<not> req_flag req then Idle else Streaming_outer)\<rparr>, s3))
      | Returned \<Rightarrow> (l, s))"

fun fillLoop_steps :: "layout \<Rightarrow> fs_reply list \<Rightarrow> system \<Rightarrow> system" where
  "fillLoop_steps cfg [] w = w"
| "fillLoop_steps cfg (r # rs) w = fillLoop_steps cfg rs (fillLoop_step cfg r w)"

subsection \<open>Both cores\<close>

text \<open>
  An interleaving of the two cores: a step of the Fill Loop on core 1, or on core 0 a
  call of \<open>fill\<close>, \<open>shift\<close> or \<open>bind\<close>, the sending of a bind request or the receipt of
  a response (the two queue operations of \<open>reqBind\<close>).
\<close>

datatype action =
  Core1 fs_reply | Call_fill | Call_shift size_t | Call_bind FIL_ptr
  | Send_req bindReq_t | Recv_resp

fun act :: "layout \<Rightarrow> action \<Rightarrow> system \<Rightarrow> system" where
  "act cfg (Core1 r) w = fillLoop_step cfg r w"
| "act cfg Call_fill (l, s) = (l, snd (fill s))"
| "act cfg (Call_shift n) (l, s) = (l, snd (shift n s))"
| "act cfg (Call_bind fp) (l, s) = (l, bind fp s)"
| "act cfg (Send_req req) (l, s) =
     (l, s\<lparr>bindReqQueue := snd (queue_try_add (bindReqQueue s) req)\<rparr>)"
| "act cfg Recv_resp (l, s) =
     (l, case queue_remove_blocking (bindRespQueue s) of
           None \<Rightarrow> s
         | Some (resp, q) \<Rightarrow> s\<lparr>bindRespQueue := q\<rparr>)"

fun run :: "layout \<Rightarrow> action list \<Rightarrow> system \<Rightarrow> system" where
  "run cfg [] w = w"
| "run cfg (a # as) w = run cfg as (act cfg a w)"

subsection \<open>Blocking calls of the consumer\<close>

text \<open>
  While core 0 waits, core 1 runs.  \<open>await k c\<close> lets the Fill Loop step until the
  condition \<open>c\<close> holds, at most \<open>k\<close> times; \<open>None\<close> is a wait that has not ended.  The
  file system's replies are a stream \<open>fs\<close>, read at the clock \<open>t\<close> that counts the steps.
\<close>

fun await ::
  "nat \<Rightarrow> (ReadBuffer \<Rightarrow> bool) \<Rightarrow> layout \<Rightarrow> (nat \<Rightarrow> fs_reply) \<Rightarrow> nat \<times> system
     \<Rightarrow> (nat \<times> system) option" where
  "await 0 c cfg fs (t, w) = (if c (snd w) then Some (t, w) else None)"
| "await (Suc k) c cfg fs (t, w) =
     (if c (snd w) then Some (t, w)
      else await k c cfg fs (Suc t, fillLoop_step cfg (fs t) w))"

definition reqBind ::
  "nat \<Rightarrow> layout \<Rightarrow> (nat \<Rightarrow> fs_reply) \<Rightarrow> FIL_ptr \<Rightarrow> bool \<Rightarrow> nat \<times> system
     \<Rightarrow> (nat \<times> system) option" where
  "reqBind k cfg fs fp flag tw =
     (case tw of (t, l, s) \<Rightarrow>
        let req = \<lparr>req_fp = fp, req_flag = flag\<rparr>;
            s1 = s\<lparr>bindReqQueue := snd (queue_try_add (bindReqQueue s) req)\<rparr>
        in case await k (\<lambda>s. \<not> queue_is_empty (bindRespQueue s)) cfg fs (t, l, s1) of
             None \<Rightarrow> None
           | Some (t2, l2, s2) \<Rightarrow>
               (case queue_remove_blocking (bindRespQueue s2) of
                  None \<Rightarrow> None
                | Some (resp, q) \<Rightarrow>
                    let s3 = s2\<lparr>bindRespQueue := q\<rparr>
                    in if flag then
                         (case await k
                                 (\<lambda>s. \<not> queue_get_level (secondaryBufferQueue s)
                                          < NUM_SECONDARY_BUFFERS cfg)
                                 cfg fs (t2, l2, s3) of
                            None \<Rightarrow> None
                          | Some (t4, l4, s4) \<Rightarrow> Some (t4, l4, snd (fill s4)))
                       else Some (t2, l2, s3)))"

text \<open>
  \<open>seek\<close>: the value \<open>fr\<close> that \<open>f_lseek\<close> returns is a parameter, as the file system is
  opaque; the code discards it.  \<open>reqBind\<close>'s flag defaults to true.
\<close>

definition seek ::
  "nat \<Rightarrow> layout \<Rightarrow> (nat \<Rightarrow> fs_reply) \<Rightarrow> FRESULT \<Rightarrow> size_t \<Rightarrow> nat \<times> system
     \<Rightarrow> (bool \<times> nat \<times> system) option" where
  "seek k cfg fs fr fpos tw =
     (case reqBind k cfg fs (m_fp (snd (snd tw))) False tw of
        None \<Rightarrow> None
      | Some tw1 \<Rightarrow>
          (case reqBind k cfg fs (m_fp (snd (snd tw1))) True tw1 of
             None \<Rightarrow> None
           | Some tw2 \<Rightarrow> Some (True, tw2)))"

subsection \<open>Invariant of the secondary-buffer channel\<close>

text \<open>
  The channel has the capacity given at \<open>queue_init\<close>, holds no more items than that,
  and holds fewer whenever the loop is about to read.
\<close>

definition level_inv :: "layout \<Rightarrow> system \<Rightarrow> bool" where
  "level_inv cfg w \<longleftrightarrow>
     element_count (secondaryBufferQueue (snd w)) = NUM_SECONDARY_BUFFERS cfg \<and>
     queue_get_level (secondaryBufferQueue (snd w)) \<le> NUM_SECONDARY_BUFFERS cfg \<and>
     (pc (fst w) = Streaming_read \<longrightarrow>
        queue_get_level (secondaryBufferQueue (snd w)) < NUM_SECONDARY_BUFFERS cfg)"

subsection \<open>States of the control channels\<close>


definition ctrl_idle :: "ReadBuffer \<Rightarrow> bool" where
  "ctrl_idle s \<longleftrightarrow>
     elems (bindReqQueue s) = [] \<and> 0 < element_count (bindReqQueue s) \<and>
     elems (bindRespQueue s) = [] \<and> 0 < element_count (bindRespQueue s)"

definition ctrl_pending :: "bindReq_t \<Rightarrow> ReadBuffer \<Rightarrow> bool" where
  "ctrl_pending req s \<longleftrightarrow>
     elems (bindReqQueue s) = [req] \<and> 0 < element_count (bindReqQueue s) \<and>
     elems (bindRespQueue s) = [] \<and> 0 < element_count (bindRespQueue s)"

definition ctrl_acked :: "bindReq_t \<Rightarrow> ReadBuffer \<Rightarrow> bool" where
  "ctrl_acked req s \<longleftrightarrow>
     elems (bindReqQueue s) = [] \<and> 0 < element_count (bindReqQueue s) \<and>
     elems (bindRespQueue s) = [req] \<and> 0 < element_count (bindRespQueue s)"

section \<open>Example states\<close>

text \<open>
  A buffer of 8 bytes at \<open>0x20000000\<close> with two unread bytes at offset 4, and one item
  of three bytes (the last of the file) on the channel.  Every byte of the store holds
  the low byte of its own address.
\<close>

definition fill_example :: ReadBuffer where
  "fill_example =
     \<lparr>mem = (\<lambda>a. ucast a), m_head = 0x20000000, m_ptr = 0x20000004, m_size = 8,
      m_left = 2, m_pos = 60, m_fillThreshold = 4, m_isEof = False, m_fp = 1,
      secondaryBufferQueue =
        \<lparr>element_count = 2,
         elems = [\<lparr>item_ptr = 0x20001000, item_pos = 63, item_length = 3,
                   item_reachedEof = True\<rparr>]\<rparr>,
      bindReqQueue = queue_init 1, bindRespQueue = queue_init 1, stdout = []\<rparr>"

text \<open>The same buffer after that item was loaded (EOF reached), and with an empty channel.\<close>

definition eof_example :: ReadBuffer where
  "eof_example = snd (fill fill_example)"

definition empty_example :: ReadBuffer where
  "empty_example = fill_example\<lparr>secondaryBufferQueue := queue_init 2\<rparr>"

text \<open>
  A full buffer of 4096 bytes whose threshold equals its size, with one more chunk of
  1024 bytes on the channel.
\<close>

definition full_example :: ReadBuffer where
  "full_example =
     \<lparr>mem = (\<lambda>a. 0), m_head = 0x20000000, m_ptr = 0x20000000, m_size = 4096,
      m_left = 4096, m_pos = 4096, m_fillThreshold = 4096, m_isEof = False, m_fp = 1,
      secondaryBufferQueue =
        \<lparr>element_count = 4,
         elems = [\<lparr>item_ptr = 0x20002000, item_pos = 5120, item_length = 1024,
                   item_reachedEof = False\<rparr>]\<rparr>,
      bindReqQueue = queue_init 1, bindRespQueue = queue_init 1, stdout = []\<rparr>"

text \<open>
  The scenario of the specification: buffer size 4096, threshold 1024, chunks of 1024
  bytes in four slots, freshly bound.  \<open>scenario_calls\<close> loads the first chunk, shifts
  by 800 (which loads the second) and asks for a shift of 5000; \<open>five_fills\<close> calls
  \<open>fill\<close> five times without consuming anything.
\<close>

definition scenario :: ReadBuffer where
  "scenario =
     bind 1 \<lparr>mem = (\<lambda>a. 0), m_head = 0x20000000, m_ptr = 0x20000000, m_size = 4096,
      m_left = 0, m_pos = 0, m_fillThreshold = 1024, m_isEof = False, m_fp = 0,
      secondaryBufferQueue = queue_init 4,
      bindReqQueue = queue_init 1, bindRespQueue = queue_init 1, stdout = []\<rparr>"

definition chunk :: "nat \<Rightarrow> secondaryBufferItem_t" where
  "chunk k = \<lparr>item_ptr = 0x20002000 + of_nat (1024 * (k mod 4)),
              item_pos = of_nat (1024 * (k + 1)), item_length = 1024, item_reachedEof = False\<rparr>"

definition scenario_calls :: "call list" where
  "scenario_calls = [Publish (chunk 0), Publish (chunk 1), Fill, Shift 800, Shift 5000]"

definition five_fills :: "call list" where
  "five_fills =
     [Publish (chunk 0), Publish (chunk 1), Publish (chunk 2), Publish (chunk 3),
      Fill, Fill, Fill, Fill, Publish (chunk 4), Fill]"

text \<open>
  A Fill Loop with two slots of four bytes, started on the scenario's buffer; a read
  that succeeds and one that fails; the consumer's connect request followed by the
  loop's steps up to its first read.
\<close>

definition cfg_example :: layout where
  "cfg_example = \<lparr>NUM_SECONDARY_BUFFERS = 2, SECONDARY_BUFFER_SIZE = 4,
                   secondaryBuffer = 0x20002000\<rparr>"

definition read_ok :: fs_reply where
  "read_ok = \<lparr>f_tell = 0, f_eof = False, f_read_fr = FR_OK, f_read_br = 4,
              f_read_data = [1, 2, 3, 4]\<rparr>"

definition read_error :: fs_reply where
  "read_error = \<lparr>f_tell = 0, f_eof = False, f_read_fr = FR_ERR 1, f_read_br = 0,
                 f_read_data = []\<rparr>"

definition system_example :: system where
  "system_example = fillLoop_start cfg_example 0 scenario"

definition connect_steps :: "action list" where
  "connect_steps =
     [Send_req \<lparr>req_fp = 1, req_flag = True\<rparr>, Core1 read_ok, Recv_resp,
      Core1 read_ok, Core1 read_ok]"

definition reading_example :: system where
  "reading_example = run cfg_example connect_steps system_example"




section \<open>Word arithmetic of block offsets\<close>

lemma unat_diff_cases:
  "unat ((a::'a::len word) - b) =
     (if unat b \<le> unat a then unat a - unat b else unat a + 2 ^ LENGTH('a) - unat b)"
  by (simp add: unat_sub_if' word_le_nat_alt)

lemma unat_sum_small:
  "unat (a::'a::len word) + unat b \<le> unat (c::'a word) \<Longrightarrow> unat (a + b) = unat a + unat b"
proof -
  assume "unat a + unat b \<le> unat c"
  moreover have "unat c < 2 ^ LENGTH('a)" by simp
  ultimately have "unat a + unat b < 2 ^ LENGTH('a)" by linarith
  then show ?thesis by (simp add: unat_add_lem)
qed









section \<open>The Primary Buffer\<close>

subsection \<open>fill\<close>

lemma fill_fields:
  assumes "\<not> m_isEof s" "elems (secondaryBufferQueue s) = item # rest"
  shows "fill s = (True, s\<lparr>mem := 
     (let m1 = memmove (mem s) (m_head s) (m_ptr s) (m_left s);
          m2 = memcpy m1 (m_head s + m_left s) (item_ptr item) (item_length item)
       in (if m_size s - m_left s > item_length item
           then memset m2 (m_head s + (m_left s + item_length item)) 0 (m_size s - m_left s - item_length item)
           else m2)),
      m_ptr := m_head s, m_left := m_left s + item_length item,
      m_pos := item_pos item, m_isEof := item_reachedEof item,
      secondaryBufferQueue := (secondaryBufferQueue s)\<lparr>elems := rest\<rparr>\<rparr>)"
  using assms by (simp add: fill_def queue_is_empty_def queue_remove_blocking_def Let_def)




lemma fill_fails:
  assumes "m_isEof s \<or> queue_is_empty (secondaryBufferQueue s)"
  shows "fill s = (False, if m_isEof s then s
     else s\<lparr>stdout := stdout s @ [''ERROR: ReadBuffer::secondaryBuffer is empty'' @ [CHR 0x0D, CHR 0x0A]]\<rparr>)"
  using assms by (auto simp add: fill_def)

lemma fill_eof: "m_isEof s \<Longrightarrow> fill s = (False, s)"
  by (simp add: fill_def)

lemma shift_eof: "m_isEof s \<Longrightarrow> m_isEof (snd (shift n s))"
  by (simp add: shift_def Let_def fill_eof)

lemma do_call_eof: "m_isEof s \<Longrightarrow> m_isEof (do_call c s)"
  by (cases c) (simp_all add: fill_eof shift_eof)

lemma do_calls_eof: "m_isEof s \<Longrightarrow> m_isEof (do_calls cs s)"
  by (induction cs arbitrary: s) (simp_all add: do_call_eof)

text \<open>
  Claim C4.  When the EOF flag is set, or it is clear and the channel is empty, \<open>fill\<close>
  returns false and leaves base, cursor, \<open>left\<close>, position, EOF flag, the store and
  the channel as they were (with the flag set nothing at all changes; on an empty
  channel only the error line is printed).  Once the flag is set, a \<open>fill\<close> after any
  further calls of \<open>fill\<close> and \<open>shift\<close> and any further publications still fails.
\<close>

theorem fill_failure:
  "(m_isEof s \<or> queue_is_empty (secondaryBufferQueue s) \<longrightarrow>
      \<not> fst (fill s) \<and>
      m_head (snd (fill s)) = m_head s \<and> m_ptr (snd (fill s)) = m_ptr s \<and>
      m_left (snd (fill s)) = m_left s \<and> m_pos (snd (fill s)) = m_pos s \<and>
      m_isEof (snd (fill s)) = m_isEof s \<and> mem (snd (fill s)) = mem s \<and>
      secondaryBufferQueue (snd (fill s)) = secondaryBufferQueue s) \<and>
   (m_isEof s \<longrightarrow> snd (fill s) = s \<and> \<not> fst (fill (do_calls cs s)))"
proof -
  have "\<not> fst (fill (do_calls cs s))" if "m_isEof s"
    using do_calls_eof [OF that, of cs] by (simp add: fill_eof)
  then show ?thesis by (auto simp add: fill_fails)
qed

text \<open>
  At the example after its last chunk, and at the example with an empty channel.
\<close>

theorem fill_failure_witness:
  "\<not> fst (fill eof_example) \<and> snd (fill eof_example) = eof_example \<and>
   \<not> fst (fill (do_calls [Shift 1, Publish \<lparr>item_ptr = 0x20001000, item_pos = 66,
         item_length = 3, item_reachedEof = False\<rparr>, Fill] eof_example)) \<and>
   \<not> fst (fill empty_example) \<and> m_left (snd (fill empty_example)) = 2 \<and>
   m_ptr (snd (fill empty_example)) = 0x20000004 \<and> m_pos (snd (fill empty_example)) = 60 \<and>
   \<not> m_isEof (snd (fill empty_example))"
proof -
  have e: "m_isEof eof_example"
    by (simp add: eof_example_def fill_example_def fill_def queue_is_empty_def
        queue_remove_blocking_def Let_def)
  have q: "queue_is_empty (secondaryBufferQueue empty_example)"
    by (simp add: empty_example_def queue_is_empty_def queue_init_def)
  have v: "m_left empty_example = 2" "m_ptr empty_example = 0x20000004" "m_pos empty_example = 60"
    "\<not> m_isEof empty_example"
    by (simp_all add: empty_example_def fill_example_def)
  show ?thesis
    using fill_failure [of eof_example
        "[Shift 1, Publish \<lparr>item_ptr = 0x20001000, item_pos = 66,
         item_length = 3, item_reachedEof = False\<rparr>, Fill]"]
      fill_failure [of empty_example "[]"] e q v
    by simp
qed

subsection \<open>tell and bind\<close>

lemma fill_succeeds:
  assumes "\<not> m_isEof s" "elems (secondaryBufferQueue s) = item # rest"
  shows "m_left (snd (fill s)) = m_left s + item_length item" "m_pos (snd (fill s)) = item_pos item"
  using assms by (simp_all add: fill_fields)

text \<open>
  Claim C5.  \<open>tell\<close> is the stored position minus \<open>left\<close>, in \<open>size_t\<close> arithmetic,
  and the natural-number difference whenever \<open>left\<close> does not exceed the position.
  After a successful \<open>fill\<close> it is the chunk's position minus the bytes then buffered;
  it is the consumer's position: loading a chunk that continues the file where the
  stored position ends does not move it, a failed \<open>fill\<close> does not move it, and a
  \<open>shift\<close> of \<open>n\<close> bytes advances it by \<open>n\<close>.
\<close>

theorem tell_logical_position:
  "tell s = m_pos s - m_left s \<and>
   (m_left s \<le> m_pos s \<longrightarrow> unat (tell s) = unat (m_pos s) - unat (m_left s)) \<and>
   (\<not> m_isEof s \<and> elems (secondaryBufferQueue s) = item # rest \<longrightarrow>
      tell (snd (fill s)) = item_pos item - (m_left s + item_length item)) \<and>
   (\<not> m_isEof s \<and> elems (secondaryBufferQueue s) = item # rest \<and>
    item_pos item = m_pos s + item_length item \<longrightarrow> tell (snd (fill s)) = tell s) \<and>
   (\<not> fst (fill s) \<longrightarrow> tell (snd (fill s)) = tell s) \<and>
   (n \<le> m_left s \<and> \<not> m_left s - n < m_fillThreshold s \<longrightarrow> tell (snd (shift n s)) = tell s + n)"
proof -
  have 1: "m_left s \<le> m_pos s \<Longrightarrow> unat (tell s) = unat (m_pos s) - unat (m_left s)"
    by (simp add: tell_def unat_diff_cases word_le_nat_alt)
  have 2: "tell (snd (fill s)) = tell s" if "\<not> fst (fill s)"
    using that by (auto simp add: fill_def tell_def Let_def split: if_splits option.splits)
  have 3: "tell (snd (shift n s)) = tell s + n" if "n \<le> m_left s" "\<not> m_left s - n < m_fillThreshold s"
  proof -
    have "\<not> m_left s < n" using that(1) by (simp add: not_less)
    then show ?thesis using that(2) by (simp add: shift_def tell_def Let_def)
  qed
  have 4: "tell (snd (fill s)) = item_pos item - (m_left s + item_length item)"
    if "\<not> m_isEof s" "elems (secondaryBufferQueue s) = item # rest"
    using fill_succeeds [OF that] by (simp add: tell_def)
  have 5: "tell (snd (fill s)) = tell s"
    if "\<not> m_isEof s" "elems (secondaryBufferQueue s) = item # rest"
      "item_pos item = m_pos s + item_length item"
    using 4 [OF that(1,2)] that(3) by (simp add: tell_def)
  have 0: "tell s = m_pos s - m_left s" by (simp add: tell_def)
  show ?thesis using 0 1 2 3 4 5 by blast
qed

text \<open>
  The example is at position 58 before and after its chunk is loaded.
\<close>

theorem tell_logical_position_witness:
  "tell fill_example = 58 \<and> unat (tell fill_example) = 58 \<and>
   tell (snd (fill fill_example)) = 58 \<and>
   \<not> fst (fill empty_example) \<and> tell (snd (fill empty_example)) = 58 \<and>
   tell (snd (shift 1 eof_example)) = 59"
proof -
  let ?it = "\<lparr>item_ptr = 0x20001000, item_pos = 63, item_length = 3, item_reachedEof = True\<rparr>"
  have q: "queue_is_empty (secondaryBufferQueue empty_example)"
    by (simp add: empty_example_def queue_is_empty_def queue_init_def)
  have f: "\<not> fst (fill empty_example)" using q by (simp add: fill_fails)
  have e: "m_left eof_example = 5" "m_pos eof_example = 63" "m_fillThreshold eof_example = 4"
    by (simp_all add: eof_example_def fill_example_def fill_def queue_is_empty_def
        queue_remove_blocking_def Let_def)
  have t: "tell empty_example = 58" "tell eof_example = 58"
    using e by (simp_all add: tell_def empty_example_def fill_example_def)
  show ?thesis
    using tell_logical_position [of fill_example ?it "[]" 0]
      tell_logical_position [of empty_example ?it "[]" 0]
      tell_logical_position [of eof_example ?it "[]" 1] f e t
    by (simp add: fill_example_def)
qed

text \<open>
  Claim C10.  \<open>bind\<close> puts the cursor at the base, sets \<open>left\<close> to 0, clears the EOF
  flag and records the handle; it does not touch the stored position, so \<open>tell\<close>
  returns the old position after \<open>bind\<close>, and still after a \<open>fill\<close> that failed.
\<close>

theorem bind_keeps_pos:
  "m_ptr (bind fp s) = m_head s \<and> m_left (bind fp s) = 0 \<and> \<not> m_isEof (bind fp s) \<and>
   m_fp (bind fp s) = fp \<and> m_pos (bind fp s) = m_pos s \<and> tell (bind fp s) = m_pos s \<and>
   (\<not> fst (fill (bind fp s)) \<longrightarrow> tell (snd (fill (bind fp s))) = m_pos s)"
proof -
  have "tell (snd (fill (bind fp s))) = tell (bind fp s)" if "\<not> fst (fill (bind fp s))"
    using that by (auto simp add: fill_def tell_def Let_def split: if_splits option.splits)
  then show ?thesis by (simp add: bind_def tell_def)
qed

text \<open>
  Rebinding the example after its last chunk: \<open>tell\<close> is the old file's 63.
\<close>

theorem bind_keeps_pos_witness:
  "tell eof_example = 58 \<and> tell (bind 2 eof_example) = 63 \<and>
   \<not> fst (fill (bind 2 eof_example)) \<and> tell (snd (fill (bind 2 eof_example))) = 63"
proof -
  have e: "m_left eof_example = 5" "m_pos eof_example = 63"
    "queue_is_empty (secondaryBufferQueue eof_example)"
    by (simp_all add: eof_example_def fill_example_def fill_def queue_is_empty_def
        queue_remove_blocking_def Let_def)
  have "queue_is_empty (secondaryBufferQueue (bind 2 eof_example))"
    using e by (simp add: bind_def)
  then have f: "\<not> fst (fill (bind 2 eof_example))" by (simp add: fill_fails)
  show ?thesis using bind_keeps_pos [of 2 eof_example] f e by (simp add: tell_def)
qed

subsection \<open>shift\<close>

lemma shift_reduces_below_size:
  fixes L S n :: "'a::len word"
  assumes "n \<le> L" "L \<le> S" "0 < n \<or> L < S"
  shows "L - n < S"
proof -
  have "unat n \<le> unat L" "unat L \<le> unat S" using assms(1,2) by (simp_all add: word_le_nat_alt)
  moreover have "0 < unat n \<or> unat L < unat S"
    using assms(3) by (simp add: word_less_nat_alt)
  moreover have "unat (L - n) = unat L - unat n"
    using \<open>unat n \<le> unat L\<close> by (simp add: unat_diff_cases)
  ultimately show ?thesis by (auto simp add: word_less_nat_alt)
qed

text \<open>
  Claim C2, amended.  \<open>shift n\<close> returns false and changes nothing when \<open>n\<close> exceeds
  \<open>left\<close>; otherwise it returns true, advances the cursor and decrements \<open>left\<close> by
  \<open>n\<close>, and then calls \<open>fill\<close> iff the new \<open>left\<close> is below the threshold.  A threshold
  of 0 never fills.  A threshold equal to the buffer size fills on every successful
  shift of a buffer with \<open>left \<le> size\<close>, except \<open>shift 0\<close> of a full buffer.
\<close>

theorem shift_spec:
  "(m_left s < n \<longrightarrow> shift n s = (False, s)) \<and>
   (n \<le> m_left s \<longrightarrow>
      fst (shift n s) \<and>
      snd (shift n s) =
        (if m_left s - n < m_fillThreshold s
         then snd (fill (s\<lparr>m_ptr := m_ptr s + n, m_left := m_left s - n\<rparr>))
         else s\<lparr>m_ptr := m_ptr s + n, m_left := m_left s - n\<rparr>)) \<and>
   (n \<le> m_left s \<and> m_fillThreshold s = 0 \<longrightarrow>
      snd (shift n s) = s\<lparr>m_ptr := m_ptr s + n, m_left := m_left s - n\<rparr>) \<and>
   (n \<le> m_left s \<and> m_fillThreshold s = m_size s \<and> m_left s \<le> m_size s \<and>
    (0 < n \<or> m_left s < m_size s) \<longrightarrow>
      snd (shift n s) = snd (fill (s\<lparr>m_ptr := m_ptr s + n, m_left := m_left s - n\<rparr>)))"
proof -
  have a: "shift n s = (False, s)" if "m_left s < n"
    using that by (simp add: shift_def)
  have b: "shift n s =
        (True, if m_left s - n < m_fillThreshold s
         then snd (fill (s\<lparr>m_ptr := m_ptr s + n, m_left := m_left s - n\<rparr>))
         else s\<lparr>m_ptr := m_ptr s + n, m_left := m_left s - n\<rparr>)" if "n \<le> m_left s"
  proof -
    have "\<not> m_left s < n" using that by (simp add: not_less)
    then show ?thesis by (simp add: shift_def Let_def)
  qed
  have c: "m_left s - n < m_size s"
    if "n \<le> m_left s" "m_left s \<le> m_size s" "0 < n \<or> m_left s < m_size s"
    using that by (rule shift_reduces_below_size)
  show ?thesis using a b c by simp
qed

text \<open>
  A refused shift, a shift without and with auto-fill, threshold 0 and threshold 8.
\<close>

theorem shift_spec_witness:
  "shift 6 eof_example = (False, eof_example) \<and>
   fst (shift 1 eof_example) \<and> m_left (snd (shift 1 eof_example)) = 4 \<and>
   m_ptr (snd (shift 1 eof_example)) = 0x20000001 \<and>
   fst (shift 1 fill_example) \<and> m_left (snd (shift 1 fill_example)) = 4 \<and>
   m_ptr (snd (shift 1 fill_example)) = 0x20000000 \<and>
   snd (shift 1 (fill_example\<lparr>m_fillThreshold := 0\<rparr>)) =
     fill_example\<lparr>m_fillThreshold := 0, m_ptr := 0x20000005, m_left := 1\<rparr> \<and>
   snd (shift 1 (fill_example\<lparr>m_fillThreshold := 8\<rparr>)) =
     snd (fill (fill_example\<lparr>m_fillThreshold := 8, m_ptr := 0x20000005, m_left := 1\<rparr>))"
proof -
  have e: "m_left eof_example = 5" "m_ptr eof_example = 0x20000000"
    "m_fillThreshold eof_example = 4"
    by (simp_all add: eof_example_def fill_example_def fill_def queue_is_empty_def
        queue_remove_blocking_def Let_def)
  have f: "m_left (snd (fill (fill_example\<lparr>m_ptr := 0x20000005, m_left := 1\<rparr>))) = 4"
    "m_ptr (snd (fill (fill_example\<lparr>m_ptr := 0x20000005, m_left := 1\<rparr>))) = 0x20000000"
    by (simp_all add: fill_example_def fill_def queue_is_empty_def
        queue_remove_blocking_def Let_def)
  have 1: "shift 6 eof_example = (False, eof_example)"
    using shift_spec [where s = eof_example and n = 6] e by simp
  have 2: "fst (shift 1 eof_example)" "m_left (snd (shift 1 eof_example)) = 4"
    "m_ptr (snd (shift 1 eof_example)) = 0x20000001"
    using shift_spec [where s = eof_example and n = 1] e by simp_all
  have 3: "fst (shift 1 fill_example)" "m_left (snd (shift 1 fill_example)) = 4"
    "m_ptr (snd (shift 1 fill_example)) = 0x20000000"
    using shift_spec [where s = fill_example and n = 1] f by (simp_all add: fill_example_def)
  have 4: "snd (shift 1 (fill_example\<lparr>m_fillThreshold := 0\<rparr>)) =
     fill_example\<lparr>m_fillThreshold := 0, m_ptr := 0x20000005, m_left := 1\<rparr>"
    using shift_spec [where s = "fill_example\<lparr>m_fillThreshold := 0\<rparr>" and n = 1]
    by (simp add: fill_example_def)
  have 5: "snd (shift 1 (fill_example\<lparr>m_fillThreshold := 8\<rparr>)) =
     snd (fill (fill_example\<lparr>m_fillThreshold := 8, m_ptr := 0x20000005, m_left := 1\<rparr>))"
    using shift_spec [where s = "fill_example\<lparr>m_fillThreshold := 8\<rparr>" and n = 1]
    by (simp add: fill_example_def)
  show ?thesis using 1 2 3 4 5 by simp
qed

text \<open>
  Claim C2 as stated fails: with the threshold equal to the size, \<open>shift 0\<close> of a full
  buffer succeeds and changes nothing, while \<open>fill\<close> would have taken the waiting item.
\<close>

theorem shift_full_buffer_no_fill:
  "m_fillThreshold full_example = m_size full_example \<and>
   shift 0 full_example = (True, full_example) \<and>
   fst (fill full_example) \<and>
   queue_get_level (secondaryBufferQueue (snd (shift 0 full_example))) = 1 \<and>
   queue_get_level (secondaryBufferQueue (snd (fill full_example))) = 0 \<and>
   snd (shift 0 full_example) \<noteq>
     snd (fill (full_example\<lparr>m_ptr := m_ptr full_example + 0, m_left := m_left full_example - 0\<rparr>))"
proof -
  have 1: "shift 0 full_example = (True, full_example)"
    by (simp add: shift_def full_example_def Let_def)
  have 2: "fst (fill full_example)"
    "queue_get_level (secondaryBufferQueue (snd (fill full_example))) = 0"
    by (simp_all add: full_example_def fill_def queue_is_empty_def queue_remove_blocking_def
        queue_get_level_def Let_def)
  have 3: "queue_get_level (secondaryBufferQueue full_example) = 1"
    by (simp add: full_example_def queue_get_level_def)
  have 4: "full_example\<lparr>m_ptr := m_ptr full_example + 0, m_left := m_left full_example - 0\<rparr>
      = full_example" by simp
  have "snd (shift 0 full_example) \<noteq> snd (fill full_example)"
  proof
    assume "snd (shift 0 full_example) = snd (fill full_example)"
    then have "queue_get_level (secondaryBufferQueue full_example) =
       queue_get_level (secondaryBufferQueue (snd (fill full_example)))" using 1 by simp
    then show False using 2 3 by simp
  qed
  then show ?thesis using 1 2 3 4 by (simp add: full_example_def)
qed

subsection \<open>The bound on left\<close>

lemma fill_cases:
  "fill s = (False, s) \<or>
   fill s = (False, s\<lparr>stdout := stdout s @ [''ERROR: ReadBuffer::secondaryBuffer is empty'' @ [CHR 0x0D, CHR 0x0A]]\<rparr>) \<or>
   (\<exists>item rest m. \<not> m_isEof s \<and> elems (secondaryBufferQueue s) = item # rest \<and>
      fill s = (True, s\<lparr>mem := m, m_ptr := m_head s, m_left := m_left s + item_length item,
        m_pos := item_pos item, m_isEof := item_reachedEof item,
        secondaryBufferQueue := (secondaryBufferQueue s)\<lparr>elems := rest\<rparr>\<rparr>))"
proof (cases "m_isEof s \<or> queue_is_empty (secondaryBufferQueue s)")
  case True
  then show ?thesis by (auto simp add: fill_fails)
next
  case False
  then obtain item rest where "elems (secondaryBufferQueue s) = item # rest"
    by (auto simp add: queue_is_empty_def neq_Nil_conv)
  with False show ?thesis by (auto simp add: fill_fields)
qed

lemma fill_room:
  assumes "room_inv C s" "unat (m_left s) + unat C \<le> unat (m_size s)"
  shows "room_inv C (snd (fill s))"
proof -
  consider (a) "fill s = (False, s)"
    | (b) "fill s = (False, s\<lparr>stdout := stdout s @ [''ERROR: ReadBuffer::secondaryBuffer is empty'' @ [CHR 0x0D, CHR 0x0A]]\<rparr>)"
    | (c) item rest m where "elems (secondaryBufferQueue s) = item # rest"
      "fill s = (True, s\<lparr>mem := m, m_ptr := m_head s, m_left := m_left s + item_length item,
        m_pos := item_pos item, m_isEof := item_reachedEof item,
        secondaryBufferQueue := (secondaryBufferQueue s)\<lparr>elems := rest\<rparr>\<rparr>)"
    using fill_cases [of s] by blast
  then show ?thesis
  proof cases
    case a then show ?thesis using assms(1) by simp
  next
    case b then show ?thesis using assms(1) by (simp add: room_inv_def)
  next
    case c
    have "item_length item \<le> C" using assms(1) c(1) by (simp add: room_inv_def)
    then have "unat (item_length item) \<le> unat C" by (simp add: word_le_nat_alt)
    then have le: "unat (m_left s) + unat (item_length item) \<le> unat (m_size s)"
      using assms(2) by linarith
    then have "unat (m_left s + item_length item) = unat (m_left s) + unat (item_length item)"
      by (rule unat_sum_small)
    then have "m_left s + item_length item \<le> m_size s" using le by (simp add: word_le_nat_alt)
    then show ?thesis using assms(1) c by (simp add: room_inv_def)
  qed
qed

lemma shift_room:
  assumes "room_inv C s"
  shows "room_inv C (snd (shift n s))"
proof (cases "m_left s < n")
  case True
  then show ?thesis using assms by (simp add: shift_def)
next
  case False
  let ?s1 = "s\<lparr>m_ptr := m_ptr s + n, m_left := m_left s - n\<rparr>"
  have n: "unat n \<le> unat (m_left s)" using False by (simp add: word_less_nat_alt)
  have L: "unat (m_left s) \<le> unat (m_size s)" using assms by (simp add: room_inv_def word_le_nat_alt)
  have d: "unat (m_left s - n) = unat (m_left s) - unat n" using n by (simp add: unat_diff_cases)
  have "m_left s - n \<le> m_size s" using d L by (simp add: word_le_nat_alt)
  then have inv1: "room_inv C ?s1" using assms by (simp add: room_inv_def)
  show ?thesis
  proof (cases "m_left s - n < m_fillThreshold s")
    case True
    then have t: "unat (m_left s - n) < unat (m_fillThreshold s)" by (simp add: word_less_nat_alt)
    then have "m_fillThreshold s \<noteq> 0" by auto
    then have "unat (m_fillThreshold s) + unat C \<le> unat (m_size s) + 1"
      using assms by (simp add: room_inv_def)
    then have "unat (m_left ?s1) + unat C \<le> unat (m_size ?s1)" using t by simp
    with inv1 have "room_inv C (snd (fill ?s1))" by (rule fill_room)
    then show ?thesis using False True by (simp add: shift_def Let_def)
  next
    case F: False
    then show ?thesis using False inv1 by (simp add: shift_def Let_def)
  qed
qed

lemma publish_room:
  assumes "room_inv C s" "item_length item \<le> C"
  shows "room_inv C (do_call (Publish item) s)"
  using assms by (auto simp add: room_inv_def queue_try_add_def)

lemma do_call_room:
  assumes "room_inv C s" "admissible C (c # cs) s"
  shows "room_inv C (do_call c s)"
  using assms by (cases c) (simp_all add: fill_room shift_room publish_room del: do_call.simps(3))

lemma do_calls_room:
  assumes "room_inv C s" "admissible C cs s"
  shows "room_inv C (do_calls (take k cs) s)"
  using assms
proof (induction cs arbitrary: s k)
  case Nil
  then show ?case by simp
next
  case (Cons c cs)
  show ?case
  proof (cases k)
    case 0
    then show ?thesis using Cons.prems by simp
  next
    case (Suc j)
    have 1: "room_inv C (do_call c s)" using Cons.prems by (rule do_call_room)
    have 2: "admissible C cs (do_call c s)" using Cons.prems(2) by (cases c) simp_all
    show ?thesis using Cons.IH [OF 1 2] Suc by simp
  qed
qed

lemma fill_size: "m_size (snd (fill s)) = m_size s"
  using fill_cases [of s] by auto

lemma shift_size: "m_size (snd (shift n s)) = m_size s"
  by (simp add: shift_def Let_def fill_size)

lemma do_call_size: "m_size (do_call c s) = m_size s"
  by (cases c) (simp_all add: fill_size shift_size)

lemma do_calls_size: "m_size (do_calls cs s) = m_size s"
  by (induction cs arbitrary: s) (simp_all add: do_call_size)

text \<open>
  Claim C3, amended.  From a buffer with \<open>left \<le> size\<close> (a freshly bound one has
  \<open>left = 0\<close>), \<open>0 \<le> left \<le> size\<close> holds after every call of a run of \<open>shift\<close> and
  \<open>fill\<close> calls, whatever items are published in between, provided that no item is
  longer than the chunk size \<open>C\<close>, that the threshold is 0 or at most \<open>size - C + 1\<close>,
  and that \<open>fill\<close> is called explicitly only when \<open>left + C \<le> size\<close>.
\<close>

theorem left_within_size:
  assumes "m_left s \<le> m_size s"
    and "\<forall>item \<in> set (elems (secondaryBufferQueue s)). item_length item \<le> C"
    and "m_fillThreshold s = 0 \<or> unat (m_fillThreshold s) + unat C \<le> unat (m_size s) + 1"
    and "admissible C cs s"
  shows "0 \<le> m_left (do_calls (take k cs) s) \<and>
         m_left (do_calls (take k cs) s) \<le> m_size s \<and>
         m_size (do_calls (take k cs) s) = m_size s"
proof -
  have "room_inv C s" using assms(1-3) by (simp add: room_inv_def)
  then have "room_inv C (do_calls (take k cs) s)" using assms(4) by (rule do_calls_room)
  then show ?thesis by (simp add: room_inv_def do_calls_size)
qed

lemmas run_simps = fill_def shift_def bind_def queue_is_empty_def queue_remove_blocking_def
  queue_try_add_def queue_init_def Let_def chunk_def

text \<open>
  The scenario: \<open>left\<close> is 1024 after the first fill, 1248 after \<open>shift 800\<close>, and
  unchanged by the refused \<open>shift 5000\<close>.
\<close>

theorem left_within_size_witness:
  "m_left scenario = 0 \<and> m_size scenario = 4096 \<and>
   m_left (do_calls (take 3 scenario_calls) scenario) = 1024 \<and>
   m_left (do_calls (take 4 scenario_calls) scenario) = 1248 \<and>
   m_left (do_calls (take 5 scenario_calls) scenario) = 1248 \<and>
   m_left (do_calls (take 5 scenario_calls) scenario) \<le> m_size scenario"
proof -
  have h1: "m_left scenario \<le> m_size scenario" by (simp add: scenario_def bind_def)
  have h2: "\<forall>item \<in> set (elems (secondaryBufferQueue scenario)). item_length item \<le> 1024"
    by (simp add: scenario_def bind_def queue_init_def)
  have h3: "m_fillThreshold scenario = 0 \<or>
      unat (m_fillThreshold scenario) + unat (1024 :: size_t) \<le> unat (m_size scenario) + 1"
    by (simp add: scenario_def bind_def)
  have h4: "admissible 1024 scenario_calls scenario"
    by (simp add: scenario_calls_def scenario_def run_simps)
  have v: "m_left scenario = 0" "m_size scenario = 4096"
    "m_left (do_calls (take 3 scenario_calls) scenario) = 1024"
    "m_left (do_calls (take 4 scenario_calls) scenario) = 1248"
    "m_left (do_calls (take 5 scenario_calls) scenario) = 1248"
    by (simp_all add: scenario_calls_def scenario_def run_simps)
  show ?thesis using left_within_size [OF h1 h2 h3 h4, of 5] v by simp
qed

text \<open>
  Claim C3 as stated fails: \<open>fill\<close> adds the chunk's length to \<open>left\<close> without
  looking at the room, so five fills of 1024 bytes leave \<open>left = 5120\<close> in a buffer of
  4096 bytes.
\<close>

theorem five_fills_overflow:
  "m_left scenario = 0 \<and> m_size scenario = 4096 \<and>
   m_left (do_calls five_fills scenario) = 5120 \<and>
   m_size (do_calls five_fills scenario) = 4096 \<and>
   \<not> m_left (do_calls five_fills scenario) \<le> m_size (do_calls five_fills scenario)"
  by (simp add: five_fills_def scenario_def run_simps)

section \<open>The Fill Loop and the channels\<close>

subsection \<open>Backpressure\<close>

lemma fill_queue:
  "element_count (secondaryBufferQueue (snd (fill s))) = element_count (secondaryBufferQueue s) \<and>
   queue_get_level (secondaryBufferQueue (snd (fill s))) \<le> queue_get_level (secondaryBufferQueue s) \<and>
   bindReqQueue (snd (fill s)) = bindReqQueue s \<and> bindRespQueue (snd (fill s)) = bindRespQueue s"
  using fill_cases [of s] by (auto simp add: queue_get_level_def)

lemma shift_queue:
  "element_count (secondaryBufferQueue (snd (shift n s))) = element_count (secondaryBufferQueue s) \<and>
   queue_get_level (secondaryBufferQueue (snd (shift n s))) \<le> queue_get_level (secondaryBufferQueue s) \<and>
   bindReqQueue (snd (shift n s)) = bindReqQueue s \<and> bindRespQueue (snd (shift n s)) = bindRespQueue s"
  using fill_queue [of "s\<lparr>m_ptr := m_ptr s + n, m_left := m_left s - n\<rparr>"]
  by (simp add: shift_def Let_def)

lemma step_level_inv:
  assumes "level_inv cfg w"
  shows "level_inv cfg (fillLoop_step cfg r w)"
proof (cases w)
  case (Pair l s)
  show ?thesis
  proof (cases "pc l")
    case Idle
    then show ?thesis using assms Pair
      by (auto simp add: level_inv_def Let_def bind_def split: option.splits)
  next
    case Streaming_outer
    then show ?thesis using assms Pair by (auto simp add: level_inv_def)
  next
    case Streaming_inner
    then show ?thesis using assms Pair by (auto simp add: level_inv_def)
  next
    case Streaming_read
    then show ?thesis using assms Pair
      by (auto simp add: level_inv_def Let_def queue_try_add_def queue_get_level_def)
  next
    case Streaming_accept
    then show ?thesis using assms Pair
      by (auto simp add: level_inv_def Let_def queue_get_level_def split: option.splits)
  next
    case Returned
    then show ?thesis using assms Pair by (simp add: level_inv_def)
  qed
qed

lemma act_level_inv:
  assumes "level_inv cfg w"
  shows "level_inv cfg (act cfg a w)"
proof (cases w)
  case (Pair l s)
  show ?thesis
  proof (cases a)
    case (Core1 r)
    then show ?thesis using assms by (simp add: step_level_inv)
  next
    case Call_fill
    then show ?thesis using assms Pair fill_queue [of s] by (auto simp add: level_inv_def)
  next
    case (Call_shift n)
    then show ?thesis using assms Pair shift_queue [of n s] by (auto simp add: level_inv_def)
  next
    case (Call_bind fp)
    then show ?thesis using assms Pair by (simp add: level_inv_def bind_def)
  next
    case (Send_req req)
    then show ?thesis using assms Pair by (simp add: level_inv_def)
  next
    case Recv_resp
    then show ?thesis using assms Pair by (simp add: level_inv_def split: option.splits)
  qed
qed

lemma run_level_inv: "level_inv cfg w \<Longrightarrow> level_inv cfg (run cfg as w)"
  by (induction as arbitrary: w) (simp_all add: act_level_inv)

lemma start_level_inv: "level_inv cfg (fillLoop_start cfg fp0 s0)"
  by (simp add: level_inv_def fillLoop_start_def queue_init_def queue_get_level_def)

text \<open>
  Claim C7.  In every state that the two cores reach from the start of the Fill Loop,
  under any interleaving of its steps with the consumer's calls and any replies of the
  file system, the channel holds at most \<open>NUM_SECONDARY_BUFFERS\<close> items; the loop is
  at its read only while the channel holds fewer, so no item is published onto a full
  channel; and at the level test with a full channel it does not read but goes on to
  the acceptance of bind requests.
\<close>

theorem backpressure:
  "queue_get_level (secondaryBufferQueue (snd (run cfg as (fillLoop_start cfg fp0 s0))))
     \<le> NUM_SECONDARY_BUFFERS cfg \<and>
   (pc (fst (run cfg as (fillLoop_start cfg fp0 s0))) = Streaming_read \<longrightarrow>
      queue_get_level (secondaryBufferQueue (snd (run cfg as (fillLoop_start cfg fp0 s0))))
        < NUM_SECONDARY_BUFFERS cfg) \<and>
   (pc (fst (run cfg as (fillLoop_start cfg fp0 s0))) = Streaming_inner \<and>
    queue_get_level (secondaryBufferQueue (snd (run cfg as (fillLoop_start cfg fp0 s0))))
      = NUM_SECONDARY_BUFFERS cfg \<longrightarrow>
      pc (fst (fillLoop_step cfg r (run cfg as (fillLoop_start cfg fp0 s0)))) = Streaming_accept \<and>
      snd (fillLoop_step cfg r (run cfg as (fillLoop_start cfg fp0 s0)))
        = snd (run cfg as (fillLoop_start cfg fp0 s0)))"
proof -
  let ?w = "run cfg as (fillLoop_start cfg fp0 s0)"
  have "level_inv cfg ?w" using start_level_inv by (rule run_level_inv)
  moreover have "pc (fst (fillLoop_step cfg r ?w)) = Streaming_accept \<and>
      snd (fillLoop_step cfg r ?w) = snd ?w"
    if "pc (fst ?w) = Streaming_inner"
      "queue_get_level (secondaryBufferQueue (snd ?w)) = NUM_SECONDARY_BUFFERS cfg"
    using that by (cases ?w) simp
  ultimately show ?thesis by (simp add: level_inv_def)
qed

lemmas loop_simps = system_example_def cfg_example_def read_ok_def read_error_def
  fillLoop_start_def scenario_def connect_steps_def run_simps queue_get_level_def

text \<open>
  With two slots: the loop reaches its first read with an empty channel, and after
  two reads it stands at the level test with two items and moves on without reading.
\<close>

theorem backpressure_witness:
  "pc (fst (run cfg_example connect_steps system_example)) = Streaming_read \<and>
   queue_get_level (secondaryBufferQueue (snd (run cfg_example connect_steps system_example))) = 0 \<and>
   pc (fst (run cfg_example (connect_steps @ [Core1 read_ok, Core1 read_ok, Core1 read_ok]) system_example))
     = Streaming_inner \<and>
   queue_get_level (secondaryBufferQueue
     (snd (run cfg_example (connect_steps @ [Core1 read_ok, Core1 read_ok, Core1 read_ok]) system_example))) = 2 \<and>
   pc (fst (fillLoop_step cfg_example read_ok
     (run cfg_example (connect_steps @ [Core1 read_ok, Core1 read_ok, Core1 read_ok]) system_example)))
     = Streaming_accept"
proof -
  have 1: "pc (fst (run cfg_example connect_steps system_example)) = Streaming_read"
    "queue_get_level (secondaryBufferQueue (snd (run cfg_example connect_steps system_example))) = 0"
    by (simp_all add: loop_simps)
  have 2: "pc (fst (run cfg_example (connect_steps @ [Core1 read_ok, Core1 read_ok, Core1 read_ok]) system_example))
     = Streaming_inner"
    "queue_get_level (secondaryBufferQueue
       (snd (run cfg_example (connect_steps @ [Core1 read_ok, Core1 read_ok, Core1 read_ok]) system_example))) = 2"
    by (simp_all add: loop_simps)
  have n: "NUM_SECONDARY_BUFFERS cfg_example = 2" by (simp add: cfg_example_def)
  show ?thesis
    using backpressure [of cfg_example connect_steps 0 scenario read_ok]
      backpressure [of cfg_example "connect_steps @ [Core1 read_ok, Core1 read_ok, Core1 read_ok]" 0 scenario read_ok]
      1 2 n
    by (simp add: system_example_def)
qed

subsection \<open>A failed read\<close>

lemma returned_step: "pc (fst w) = Returned \<Longrightarrow> fillLoop_step cfg r w = w"
  by (cases w) simp

lemma returned_steps: "pc (fst w) = Returned \<Longrightarrow> fillLoop_steps cfg rs w = w"
  by (induction rs) (simp_all add: returned_step)

lemma returned_act:
  assumes "pc (fst w) = Returned"
  shows "pc (fst (act cfg a w)) = Returned \<and>
    queue_get_level (secondaryBufferQueue (snd (act cfg a w)))
      \<le> queue_get_level (secondaryBufferQueue (snd w)) \<and>
    queue_get_level (bindRespQueue (snd (act cfg a w)))
      \<le> queue_get_level (bindRespQueue (snd w)) \<and>
    queue_get_level (bindReqQueue (snd w))
      \<le> queue_get_level (bindReqQueue (snd (act cfg a w)))"
proof (cases w)
  case (Pair l s)
  show ?thesis
  proof (cases a)
    case (Core1 r)
    then show ?thesis using assms by (simp add: returned_step)
  next
    case Call_fill
    then show ?thesis using assms Pair fill_queue [of s] by simp
  next
    case (Call_shift n)
    then show ?thesis using assms Pair shift_queue [of n s] by simp
  next
    case (Call_bind fp)
    then show ?thesis using assms Pair by (simp add: bind_def)
  next
    case (Send_req req)
    then show ?thesis using assms Pair by (simp add: queue_try_add_def queue_get_level_def)
  next
    case Recv_resp
    then show ?thesis using assms Pair
      by (simp add: queue_remove_blocking_def queue_get_level_def split: list.splits)
  qed
qed

lemma returned_run:
  assumes "pc (fst w) = Returned"
  shows "pc (fst (run cfg as w)) = Returned \<and>
    queue_get_level (secondaryBufferQueue (snd (run cfg as w)))
      \<le> queue_get_level (secondaryBufferQueue (snd w)) \<and>
    queue_get_level (bindRespQueue (snd (run cfg as w)))
      \<le> queue_get_level (bindRespQueue (snd w)) \<and>
    queue_get_level (bindReqQueue (snd w))
      \<le> queue_get_level (bindReqQueue (snd (run cfg as w)))"
  using assms
proof (induction as arbitrary: w)
  case Nil
  then show ?case by simp
next
  case (Cons a as)
  note a = returned_act [OF Cons.prems, of cfg a]
  then have "pc (fst (act cfg a w)) = Returned" by simp
  from Cons.IH [OF this] a show ?case by (simp del: act.simps)
qed

text \<open>
  Claim C6.  When the read of the streaming phase returns an error or zero bytes, the
  step ends in \<open>Returned\<close> and leaves the three channels as they were: no item is
  published for that read.  From then on the loop's steps change nothing, and under
  any interleaving with the consumer the channel of items and the channel of responses
  never grow and no bind request is taken.
\<close>

theorem read_failure_stops_loop:
  assumes "pc (fst w) = Streaming_read" and "f_read_fr r \<noteq> FR_OK \<or> f_read_br r = 0"
  shows "pc (fst (fillLoop_step cfg r w)) = Returned \<and>
    secondaryBufferQueue (snd (fillLoop_step cfg r w)) = secondaryBufferQueue (snd w) \<and>
    bindReqQueue (snd (fillLoop_step cfg r w)) = bindReqQueue (snd w) \<and>
    bindRespQueue (snd (fillLoop_step cfg r w)) = bindRespQueue (snd w) \<and>
    fillLoop_steps cfg rs (fillLoop_step cfg r w) = fillLoop_step cfg r w \<and>
    pc (fst (run cfg as (fillLoop_step cfg r w))) = Returned \<and>
    queue_get_level (secondaryBufferQueue (snd (run cfg as (fillLoop_step cfg r w))))
      \<le> queue_get_level (secondaryBufferQueue (snd w)) \<and>
    queue_get_level (bindRespQueue (snd (run cfg as (fillLoop_step cfg r w))))
      \<le> queue_get_level (bindRespQueue (snd w)) \<and>
    queue_get_level (bindReqQueue (snd w))
      \<le> queue_get_level (bindReqQueue (snd (run cfg as (fillLoop_step cfg r w))))"
proof -
  let ?w = "fillLoop_step cfg r w"
  have w: "pc (fst ?w) = Returned"
    "secondaryBufferQueue (snd ?w) = secondaryBufferQueue (snd w)"
    "bindReqQueue (snd ?w) = bindReqQueue (snd w)"
    "bindRespQueue (snd ?w) = bindRespQueue (snd w)"
    using assms by (cases w; auto simp add: Let_def)+
  from returned_steps [OF w(1)] returned_run [OF w(1), of cfg as] w
  show ?thesis by simp
qed

text \<open>
  A failing first read; the disconnect request sent afterwards gets no response.
\<close>

theorem read_failure_stops_loop_witness:
  "pc (fst reading_example) = Streaming_read \<and>
   pc (fst (fillLoop_step cfg_example read_error reading_example)) = Returned \<and>
   queue_get_level (secondaryBufferQueue (snd (fillLoop_step cfg_example read_error reading_example))) = 0 \<and>
   fillLoop_steps cfg_example [read_ok, read_ok]
     (fillLoop_step cfg_example read_error reading_example)
     = fillLoop_step cfg_example read_error reading_example \<and>
   queue_get_level (bindRespQueue (snd (run cfg_example
       [Send_req \<lparr>req_fp = 1, req_flag = False\<rparr>, Core1 read_ok, Core1 read_ok]
       (fillLoop_step cfg_example read_error reading_example)))) = 0"
proof -
  have l: "pc (fst reading_example) = Streaming_read"
    "queue_get_level (secondaryBufferQueue (snd reading_example)) = 0"
    "queue_get_level (bindRespQueue (snd reading_example)) = 0"
    by (simp_all add: reading_example_def loop_simps)
  have r: "f_read_fr read_error \<noteq> FR_OK \<or> f_read_br read_error = 0"
    by (simp add: read_error_def)
  show ?thesis
    using read_failure_stops_loop [OF l(1) r, of cfg_example "[read_ok, read_ok]"
        "[Send_req \<lparr>req_fp = 1, req_flag = False\<rparr>, Core1 read_ok, Core1 read_ok]"] l
    by (simp del: run.simps fillLoop_steps.simps)
qed

subsection \<open>Disconnect while idle\<close>

lemma queue_restore: "elems q = xs \<Longrightarrow> q\<lparr>elems := xs\<rparr> = q"
  by auto

lemma idle_disconnect_step:
  assumes "pc l = Idle"
    and "elems (bindReqQueue s) = []" and "0 < element_count (bindReqQueue s)"
    and "elems (bindRespQueue s) = []" and "0 < element_count (bindRespQueue s)"
  shows "fillLoop_step cfg r
       (l, s\<lparr>bindReqQueue :=
               snd (queue_try_add (bindReqQueue s) \<lparr>req_fp = fp, req_flag = False\<rparr>)\<rparr>)
     = (l, s\<lparr>bindRespQueue :=
               (bindRespQueue s)\<lparr>elems := [\<lparr>req_fp = fp, req_flag = False\<rparr>]\<rparr>\<rparr>)"
proof -
  have "(bindReqQueue s)\<lparr>elems := []\<rparr> = bindReqQueue s"
    using assms(2) by (rule queue_restore)
  then show ?thesis
    using assms by (simp add: queue_try_add_def queue_remove_blocking_def Let_def)
qed

lemma idle_disconnect_reqBind:
  assumes "pc l = Idle"
    and "elems (bindReqQueue s) = []" and "0 < element_count (bindReqQueue s)"
    and "elems (bindRespQueue s) = []" and "0 < element_count (bindRespQueue s)"
  shows "reqBind (Suc k) cfg fs fp False (t, l, s) = Some (Suc t, l, s)"
proof -
  let ?req = "\<lparr>req_fp = fp, req_flag = False\<rparr>"
  let ?s1 = "s\<lparr>bindReqQueue := snd (queue_try_add (bindReqQueue s) ?req)\<rparr>"
  let ?s2 = "s\<lparr>bindRespQueue := (bindRespQueue s)\<lparr>elems := [?req]\<rparr>\<rparr>"
  have 1: "queue_is_empty (bindRespQueue ?s1)" using assms(4) by (simp add: queue_is_empty_def)
  have 2: "\<not> queue_is_empty (bindRespQueue ?s2)" by (simp add: queue_is_empty_def)
  have "await (Suc k) (\<lambda>s. \<not> queue_is_empty (bindRespQueue s)) cfg fs (t, l, ?s1)
      = await k (\<lambda>s. \<not> queue_is_empty (bindRespQueue s)) cfg fs (Suc t, l, ?s2)"
    using 1 idle_disconnect_step [OF assms, of cfg "fs t" fp] by (simp del: fillLoop_step.simps)
  also have "\<dots> = Some (Suc t, l, ?s2)" using 2 by (cases k) simp_all
  finally have a: "await (Suc k) (\<lambda>s. \<not> queue_is_empty (bindRespQueue s)) cfg fs (t, l, ?s1)
      = Some (Suc t, l, ?s2)" .
  have "(bindRespQueue s)\<lparr>elems := []\<rparr> = bindRespQueue s"
    using assms(4) by (rule queue_restore)
  then have b: "?s2\<lparr>bindRespQueue := (bindRespQueue ?s2)\<lparr>elems := []\<rparr>\<rparr> = s" by simp
  show ?thesis
    unfolding reqBind_def using b
    by (simp add: a Let_def queue_remove_blocking_def del: await.simps)
qed

text \<open>
  Claim C8.  With the Fill Loop idle and the control channels empty, a disconnect
  request makes the loop send the acknowledgment and nothing else: its locals, the
  binding and the buffer are unchanged and it stays idle.  Once the consumer has taken
  the acknowledgment the whole system is as before, so \<open>reqBind\<close> with the flag false
  returns after one step of the loop, and doing it twice gives the same state again.
\<close>

theorem disconnect_while_idle:
  assumes "pc l = Idle"
    and "elems (bindReqQueue s) = []" and "0 < element_count (bindReqQueue s)"
    and "elems (bindRespQueue s) = []" and "0 < element_count (bindRespQueue s)"
  shows "fillLoop_step cfg r (act cfg (Send_req \<lparr>req_fp = fp, req_flag = False\<rparr>) (l, s))
       = (l, s\<lparr>bindRespQueue :=
                 (bindRespQueue s)\<lparr>elems := [\<lparr>req_fp = fp, req_flag = False\<rparr>]\<rparr>\<rparr>) \<and>
     act cfg Recv_resp
       (fillLoop_step cfg r (act cfg (Send_req \<lparr>req_fp = fp, req_flag = False\<rparr>) (l, s)))
       = (l, s) \<and>
     reqBind (Suc k) cfg fs fp False (t, l, s) = Some (Suc t, l, s) \<and>
     Option.bind (reqBind (Suc k) cfg fs fp False (t, l, s)) (reqBind (Suc k) cfg fs fp False)
       = Some (Suc (Suc t), l, s)"
proof -
  note step = idle_disconnect_step [OF assms, of cfg r fp]
  have "(bindRespQueue s)\<lparr>elems := []\<rparr> = bindRespQueue s"
    using assms(4) by (rule queue_restore)
  then have recv: "act cfg Recv_resp
      (l, s\<lparr>bindRespQueue := (bindRespQueue s)\<lparr>elems := [\<lparr>req_fp = fp, req_flag = False\<rparr>]\<rparr>\<rparr>)
      = (l, s)"
    by (simp add: queue_remove_blocking_def)
  note call = idle_disconnect_reqBind [OF assms]
  show ?thesis using step recv call by (simp del: fillLoop_step.simps)
qed

text \<open>
  At the freshly started loop.
\<close>

theorem disconnect_while_idle_witness:
  "pc (fst system_example) = Idle \<and>
   reqBind 1 cfg_example (\<lambda>t. read_ok) 1 False (0, system_example) = Some (1, system_example) \<and>
   Option.bind (reqBind 1 cfg_example (\<lambda>t. read_ok) 1 False (0, system_example))
     (reqBind 1 cfg_example (\<lambda>t. read_ok) 1 False) = Some (2, system_example) \<and>
   queue_get_level (bindRespQueue (snd (fillLoop_step cfg_example read_ok
     (act cfg_example (Send_req \<lparr>req_fp = 1, req_flag = False\<rparr>) system_example)))) = 1 \<and>
   pc (fst (fillLoop_step cfg_example read_ok
     (act cfg_example (Send_req \<lparr>req_fp = 1, req_flag = False\<rparr>) system_example))) = Idle"
proof -
  obtain l s where ls: "system_example = (l, s)" by (cases system_example)
  then have h: "pc l = Idle" "elems (bindReqQueue s) = []" "0 < element_count (bindReqQueue s)"
    "elems (bindRespQueue s) = []" "0 < element_count (bindRespQueue s)"
    by (auto simp add: system_example_def fillLoop_start_def queue_init_def)
  show ?thesis
    using disconnect_while_idle [OF h, of cfg_example read_ok 1 0 "\<lambda>t. read_ok" 0]
      disconnect_while_idle [OF h, of cfg_example read_ok 1 0 "\<lambda>t. read_ok" 1] h(1)
    by (simp add: ls queue_get_level_def del: fillLoop_step.simps act.simps)
qed

section \<open>Blocking calls\<close>

subsection \<open>Waiting\<close>

lemma await_now: "c (snd w) \<Longrightarrow> await k c cfg fs (t, w) = Some (t, w)"
  by (cases k) simp_all




subsection \<open>Single steps of the loop\<close>

lemma step_outer:
  "pc l = Streaming_outer \<Longrightarrow>
   fillLoop_step cfg r (l, s) =
     (l\<lparr>pc := (if \<not> loop_reachedEof l then Streaming_inner else Idle)\<rparr>, s)"
  by simp



lemma step_idle_request:
  assumes "pc l = Idle" and "ctrl_pending req s"
  shows "pc (fst (fillLoop_step cfg r (l, s))) = (if req_flag req then Streaming_outer else Idle)"
    and "req_flag req \<Longrightarrow> loop_reachedEof (fst (fillLoop_step cfg r (l, s))) = f_eof r"
    and "ctrl_acked req (snd (fillLoop_step cfg r (l, s)))"
    and "secondaryBufferQueue (snd (fillLoop_step cfg r (l, s))) = secondaryBufferQueue s"
  using assms
  by (simp_all add: ctrl_pending_def ctrl_acked_def Let_def queue_try_add_def
      queue_remove_blocking_def bind_def)


text \<open>From here on the loop is stepped through the lemmas above.\<close>

declare fillLoop_step.simps [simp del]

subsection \<open>Progress of the loop while the consumer waits\<close>






subsection \<open>reqBind and seek\<close>




lemma send_request:
  assumes "ctrl_idle s" and "level_inv cfg (l, s)"
  shows "ctrl_pending req (s\<lparr>bindReqQueue := snd (queue_try_add (bindReqQueue s) req)\<rparr>)"
    and "level_inv cfg (l, s\<lparr>bindReqQueue := snd (queue_try_add (bindReqQueue s) req)\<rparr>)"
  using assms by (simp_all add: ctrl_idle_def ctrl_pending_def level_inv_def queue_try_add_def)

lemma take_response:
  assumes "ctrl_acked req s" and "level_inv cfg (l, s)"
  shows "elems (bindRespQueue s) = req # []"
    and "ctrl_idle (s\<lparr>bindRespQueue := (bindRespQueue s)\<lparr>elems := []\<rparr>\<rparr>)"
    and "level_inv cfg (l, s\<lparr>bindRespQueue := (bindRespQueue s)\<lparr>elems := []\<rparr>\<rparr>)"
  using assms by (simp_all add: ctrl_idle_def ctrl_acked_def level_inv_def)








subsection \<open>Reconnecting at the end of the file\<close>

lemma step_idle_quiet:
  "pc l = Idle \<Longrightarrow> elems (bindReqQueue s) = [] \<Longrightarrow> fillLoop_step cfg r (l, s) = (l, s)"
  by (simp add: fillLoop_step.simps queue_remove_blocking_def)

lemma await_idle_quiet:
  "pc l = Idle \<Longrightarrow> elems (bindReqQueue s) = [] \<Longrightarrow> \<not> c s \<Longrightarrow>
   await k c cfg fs (t, l, s) = None"
  by (induction k arbitrary: t) (simp_all add: step_idle_quiet)

lemma reqBind_connect_blocks_at_eof:
  assumes at_idle: "pc l = Idle" and idle: "ctrl_idle s" and inv: "level_inv cfg (l, s)"
    and eof: "f_eof (fs t)"
    and room: "queue_get_level (secondaryBufferQueue s) < NUM_SECONDARY_BUFFERS cfg"
  shows "reqBind k cfg fs fp True (t, l, s) = None"
proof (cases k)
  case 0
  then show ?thesis using idle
    by (simp add: reqBind_def Let_def ctrl_idle_def queue_is_empty_def)
next
  case (Suc j)
  let ?req = "\<lparr>req_fp = fp, req_flag = True\<rparr>"
  let ?s1 = "s\<lparr>bindReqQueue := snd (queue_try_add (bindReqQueue s) ?req)\<rparr>"
  let ?c = "\<lambda>s. \<not> queue_is_empty (bindRespQueue s)"
  let ?f = "\<lambda>s. \<not> queue_get_level (secondaryBufferQueue s) < NUM_SECONDARY_BUFFERS cfg"
  note s = send_request [OF idle inv, of ?req]
  have nc: "\<not> ?c ?s1" using s(1) by (simp add: ctrl_pending_def queue_is_empty_def)
  obtain l2 s2 where s2: "fillLoop_step cfg (fs t) (l, ?s1) = (l2, s2)"
    by (cases "fillLoop_step cfg (fs t) (l, ?s1)")
  have w2: "pc l2 = Streaming_outer" "loop_reachedEof l2" "ctrl_acked ?req s2"
    "secondaryBufferQueue s2 = secondaryBufferQueue s"
    using step_idle_request [OF at_idle s(1), of cfg "fs t"] s2 eof by simp_all
  have i2: "level_inv cfg (l2, s2)" using step_level_inv [OF s(2), of "fs t"] s2 by simp
  have c2: "?c s2" using w2(3) by (simp add: ctrl_acked_def queue_is_empty_def)
  have a: "await (Suc j) ?c cfg fs (t, l, ?s1) = Some (Suc t, l2, s2)"
    using nc s2 c2 by (simp add: await_now)
  note r = take_response [OF w2(3) i2]
  let ?s3 = "s2\<lparr>bindRespQueue := (bindRespQueue s2)\<lparr>elems := []\<rparr>\<rparr>"
  have nf: "\<not> ?f ?s3" using room w2(4) by simp
  have s3: "fillLoop_step cfg (fs (Suc t)) (l2, ?s3) = (l2\<lparr>pc := Idle\<rparr>, ?s3)"
    using step_outer [OF w2(1), of cfg "fs (Suc t)" ?s3] w2(2) by simp
  have "await j ?f cfg fs (Suc (Suc t), l2\<lparr>pc := Idle\<rparr>, ?s3) = None"
    using r(2) nf by (intro await_idle_quiet) (simp_all add: ctrl_idle_def)
  then have b: "await (Suc j) ?f cfg fs (Suc t, l2, ?s3) = None"
    using nf s3 by simp
  show ?thesis
    using a r(1) b Suc by (simp add: reqBind_def Let_def queue_remove_blocking_def)
qed

text \<open>
  A seek to the end of the file does not return either: the loop, bound at EOF, reads
  nothing and goes back to its idle wait, while \<open>reqBind\<close> waits for a full pool.
\<close>

lemma seek_blocks_at_eof:
  assumes "pc l = Idle" and "ctrl_idle s" and "level_inv cfg (l, s)"
    and "\<forall>t. f_eof (fs t)"
    and "queue_get_level (secondaryBufferQueue s) < NUM_SECONDARY_BUFFERS cfg"
  shows "seek k cfg fs fr fpos (t, l, s) = None"
proof (cases k)
  case 0
  then show ?thesis using assms(2)
    by (simp add: seek_def reqBind_def Let_def ctrl_idle_def queue_is_empty_def)
next
  case (Suc j)
  have "reqBind (Suc j) cfg fs (m_fp s) False (t, l, s) = Some (Suc t, l, s)"
    using assms(1,2) by (intro idle_disconnect_reqBind) (simp_all add: ctrl_idle_def)
  moreover have "reqBind (Suc j) cfg fs (m_fp s) True (Suc t, l, s) = None"
    using assms by (intro reqBind_connect_blocks_at_eof) simp_all
  ultimately show ?thesis using Suc by (simp add: seek_def)
qed

end
